theory Spec2Isabelle
  imports Main "HOL-Library.Word"
begin

section \<open>Strings and the library functions the checker calls\<close>

text \<open>
  A Go string is a sequence of bytes; it is modelled as a \<open>string\<close>, a list of
  \<open>char\<close> (256 values). The functions below are the ones of package \<open>strings\<close> that
  \<open>email_checker.go\<close> calls. \<open>ToLower\<close>, \<open>ToUpper\<close> and \<open>TrimSpace\<close> follow the library
  on ASCII bytes (its fast path); on a byte of 128 or more the library decodes UTF-8,
  which is not modelled: such a byte is left as it is. Every separator and pattern the
  checker passes (\<open>"@"\<close>, \<open>"."\<close>, \<open>"+"\<close>) is a single byte, so \<open>Split\<close>, \<open>ReplaceAll\<close>
  and \<open>Index\<close> take a \<open>char\<close>.
\<close>

definition isASCII :: "char \<Rightarrow> bool" where
  "isASCII c = ((of_char c :: nat) < 128)"

definition isUpperByte :: "char \<Rightarrow> bool" where
  "isUpperByte c = (65 \<le> (of_char c :: nat) \<and> (of_char c :: nat) \<le> 90)"

definition isLowerByte :: "char \<Rightarrow> bool" where
  "isLowerByte c = (97 \<le> (of_char c :: nat) \<and> (of_char c :: nat) \<le> 122)"

definition isDigitByte :: "char \<Rightarrow> bool" where
  "isDigitByte c = (48 \<le> (of_char c :: nat) \<and> (of_char c :: nat) \<le> 57)"

definition toLowerByte :: "char \<Rightarrow> char" where
  "toLowerByte c = (if isUpperByte c then char_of ((of_char c :: nat) + 32) else c)"

definition toUpperByte :: "char \<Rightarrow> char" where
  "toUpperByte c = (if isLowerByte c then char_of ((of_char c :: nat) - 32) else c)"

definition ToLower :: "string \<Rightarrow> string" where
  "ToLower s = map toLowerByte s"

definition ToUpper :: "string \<Rightarrow> string" where
  "ToUpper s = map toUpperByte s"

text \<open>The table \<open>asciiSpace\<close> of package \<open>strings\<close>: tab, newline, vertical tab, form
  feed, carriage return and space.\<close>

definition asciiSpace :: "char \<Rightarrow> bool" where
  "asciiSpace c = ((of_char c :: nat) \<in> {9, 10, 11, 12, 13, 32})"

definition TrimSpace :: "string \<Rightarrow> string" where
  "TrimSpace s = rev (dropWhile asciiSpace (rev (dropWhile asciiSpace s)))"

text \<open>\<open>strings.Split(s, sep)\<close> for a one-byte separator: the pieces between the
  occurrences of the separator, one more piece than there are occurrences.\<close>

primrec Split :: "string \<Rightarrow> char \<Rightarrow> string list" where
  "Split [] sep = [[]]"
| "Split (c # cs) sep =
     (if c = sep then [] # Split cs sep
      else (case Split cs sep of [] \<Rightarrow> [[c]] | p # ps \<Rightarrow> (c # p) # ps))"

text \<open>\<open>strings.ReplaceAll(s, old, new)\<close> for a one-byte \<open>old\<close>.\<close>

definition ReplaceAll :: "string \<Rightarrow> char \<Rightarrow> string \<Rightarrow> string" where
  "ReplaceAll s old new = concat (map (\<lambda>c. if c = old then new else [c]) s)"

text \<open>\<open>strings.Index(s, sub)\<close> for a one-byte \<open>sub\<close>: the index of the first
  occurrence, or \<open>-1\<close>.\<close>

primrec Index :: "string \<Rightarrow> char \<Rightarrow> int" where
  "Index [] b = -1"
| "Index (c # cs) b =
     (if c = b then 0 else (let i = Index cs b in if i = -1 then -1 else i + 1))"

text \<open>\<open>strings.HasSuffix\<close> and \<open>strings.Contains\<close>, on strings.\<close>

definition HasSuffix :: "string \<Rightarrow> string \<Rightarrow> bool" where
  "HasSuffix s suffix =
     (length suffix \<le> length s \<and> drop (length s - length suffix) s = suffix)"

primrec Contains :: "string \<Rightarrow> string \<Rightarrow> bool" where
  "Contains [] sub = (sub = [])"
| "Contains (c # cs) sub = (take (length sub) (c # cs) = sub \<or> Contains cs sub)"

section \<open>Normalisation and domain extraction\<close>

text \<open>\<open>normalizeEmail\<close> and \<open>extractDomain\<close> of \<open>email_checker.go\<close>. Neither reads its
  receiver, which is left out.\<close>

definition normalizeEmail :: "string \<Rightarrow> string" where
  "normalizeEmail email0 =
     (let email = ToLower (TrimSpace email0);
          parts = Split email CHR ''@''
      in if length parts \<noteq> 2 then email
         else
           let local = parts ! 0; domain = parts ! 1
           in if domain = ''gmail.com'' \<or> domain = ''googlemail.com'' then
                let local1 = ReplaceAll local CHR ''.'' [];
                    plusIndex = Index local1 CHR ''+'';
                    local2 = (if plusIndex \<noteq> -1 then take (nat plusIndex) local1 else local1)
                in local2 @ ''@'' @ ''gmail.com''
              else local @ ''@'' @ domain)"

definition extractDomain :: "string \<Rightarrow> string" where
  "extractDomain email =
     (let parts = Split email CHR ''@''
      in if length parts \<noteq> 2 then [] else ToLower (TrimSpace (parts ! 1)))"


section \<open>The format validator\<close>

text \<open>
  \<open>isValidEmailFormat\<close> compiles a regular expression and asks whether the address
  matches. The expression is kept as a syntax tree; matching is by derivatives. The
  pattern of the source starts with \<open>^\<close> and ends with \<open>$\<close>, so a match is a match of
  the whole string, which is what \<open>MatchString\<close> decides here. A class \<open>Cls\<close> is a list
  of inclusive byte ranges; \<open>Upto n r\<close> is \<open>r{0,n}\<close>.
\<close>

datatype regex =
    Zero
  | Eps
  | Lit char
  | Cls "(char \<times> char) list"
  | Seq regex regex
  | Alt regex regex
  | Opt regex
  | Star regex
  | Plus regex
  | Upto nat regex

definition inClass :: "(char \<times> char) list \<Rightarrow> char \<Rightarrow> bool" where
  "inClass rs c =
     list_ex (\<lambda>(lo, hi). (of_char lo :: nat) \<le> of_char c \<and> (of_char c :: nat) \<le> of_char hi) rs"

primrec nullable :: "regex \<Rightarrow> bool" where
  "nullable Zero = False"
| "nullable Eps = True"
| "nullable (Lit a) = False"
| "nullable (Cls rs) = False"
| "nullable (Seq r s) = (nullable r \<and> nullable s)"
| "nullable (Alt r s) = (nullable r \<or> nullable s)"
| "nullable (Opt r) = True"
| "nullable (Star r) = True"
| "nullable (Plus r) = nullable r"
| "nullable (Upto n r) = True"

primrec deriv :: "char \<Rightarrow> regex \<Rightarrow> regex" where
  "deriv c Zero = Zero"
| "deriv c Eps = Zero"
| "deriv c (Lit a) = (if c = a then Eps else Zero)"
| "deriv c (Cls rs) = (if inClass rs c then Eps else Zero)"
| "deriv c (Seq r s) =
     (if nullable r then Alt (Seq (deriv c r) s) (deriv c s) else Seq (deriv c r) s)"
| "deriv c (Alt r s) = Alt (deriv c r) (deriv c s)"
| "deriv c (Opt r) = deriv c r"
| "deriv c (Star r) = Seq (deriv c r) (Star r)"
| "deriv c (Plus r) = Seq (deriv c r) (Star r)"
| "deriv c (Upto n r) = (case n of 0 \<Rightarrow> Zero | Suc k \<Rightarrow> Seq (deriv c r) (Upto k r))"

primrec derivs :: "string \<Rightarrow> regex \<Rightarrow> regex" where
  "derivs [] r = r"
| "derivs (c # cs) r = derivs cs (deriv c r)"

definition MatchString :: "regex \<Rightarrow> string \<Rightarrow> bool" where
  "MatchString r s = nullable (derivs s r)"

definition conc :: "string set \<Rightarrow> string set \<Rightarrow> string set" where
  "conc A B = {u @ v | u v. u \<in> A \<and> v \<in> B}"

inductive_set star :: "string set \<Rightarrow> string set" for A :: "string set" where
  star_nil: "[] \<in> star A"
| star_app: "u \<in> A \<Longrightarrow> v \<in> star A \<Longrightarrow> u @ v \<in> star A"

primrec upto :: "string set \<Rightarrow> nat \<Rightarrow> string set" where
  "upto A 0 = {[]}"
| "upto A (Suc n) = insert [] (conc A (upto A n))"

primrec lang :: "regex \<Rightarrow> string set" where
  "lang Zero = {}"
| "lang Eps = {[]}"
| "lang (Lit a) = {[a]}"
| "lang (Cls rs) = {[c] | c. inClass rs c}"
| "lang (Seq r s) = conc (lang r) (lang s)"
| "lang (Alt r s) = lang r \<union> lang s"
| "lang (Opt r) = insert [] (lang r)"
| "lang (Star r) = star (lang r)"
| "lang (Plus r) = conc (lang r) (star (lang r))"
| "lang (Upto n r) = upto (lang r) n"


definition alnum :: "(char \<times> char) list" where
  "alnum = [(CHR ''a'', CHR ''z''), (CHR ''A'', CHR ''Z''), (CHR ''0'', CHR ''9'')]"

definition alnumHyphen :: "(char \<times> char) list" where
  "alnumHyphen = alnum @ [(CHR ''-'', CHR ''-'')]"

definition localClass :: "(char \<times> char) list" where
  "localClass = alnum @ map (\<lambda>c. (c, c))
     [CHR ''.'', CHR ''!'', CHR ''#'', CHR ''$'', CHR ''%'', CHR ''&'', CHR 0x27, CHR ''*'',
      CHR ''+'', CHR ''/'', CHR ''='', CHR ''?'', CHR ''^'', CHR ''_'', CHR 0x60, CHR ''{'',
      CHR ''|'', CHR ''}'', CHR ''~'', CHR ''-'']"

definition labelRegex :: regex where
  "labelRegex = Seq (Cls alnum) (Opt (Seq (Upto 61 (Cls alnumHyphen)) (Cls alnum)))"

definition emailRegex :: regex where
  "emailRegex =
     Seq (Plus (Cls localClass))
       (Seq (Lit CHR ''@'') (Seq labelRegex (Star (Seq (Lit CHR ''.'') labelRegex))))"

definition isValidEmailFormat :: "string \<Rightarrow> bool" where
  "isValidEmailFormat email = (MatchString emailRegex email \<and> length email \<le> 254)"


section \<open>The network and the probes\<close>

text \<open>
  The checker reaches the outside world through \<open>net.LookupMX\<close>, the \<open>dig\<close> subprocess,
  \<open>net.DialTimeout\<close>, the SMTP client and \<open>fmt.Printf\<close>. Each is a field of the record
  \<open>net\<close>: a function of the state of the world \<open>'w\<close> that returns its result and the
  next state, so that two calls with the same arguments may answer differently. A Go
  call that returns a value and an error returns a pair here; \<open>None\<close> is the \<open>nil\<close>
  error. Every call is recorded in the trace of the state, in the order it is made.
\<close>

datatype error = Error string

record MX =
  Host :: string
  Pref :: "16 word"

record Config =
  Timeout :: "64 word"
  Verbose :: bool

type_synonym conn = nat
type_synonym client = nat

datatype call =
    CallLookupMX string
  | CallDig "string list"
  | CallDialTimeout string string "64 word"
  | CallNewClient conn string
  | CallExtension client string
  | CallQuit client
  | CallClose conn
  | CallPrintf string

record 'w net =
  LookupMX :: "string \<Rightarrow> 'w \<Rightarrow> (MX list \<times> error option) \<times> 'w"
  CommandOutput :: "string \<Rightarrow> string list \<Rightarrow> 'w \<Rightarrow> (string \<times> error option) \<times> 'w"
  DialTimeout :: "string \<Rightarrow> string \<Rightarrow> 64 word \<Rightarrow> 'w \<Rightarrow> (conn \<times> error option) \<times> 'w"
  NewClient :: "conn \<Rightarrow> string \<Rightarrow> 'w \<Rightarrow> (client \<times> error option) \<times> 'w"
  Extension :: "client \<Rightarrow> string \<Rightarrow> 'w \<Rightarrow> (bool \<times> string) \<times> 'w"
  Quit :: "client \<Rightarrow> 'w \<Rightarrow> error option \<times> 'w"
  Close :: "conn \<Rightarrow> 'w \<Rightarrow> error option \<times> 'w"
  Printf :: "string \<Rightarrow> 'w \<Rightarrow> 'w"

record 'w state =
  world :: 'w
  trace :: "call list"

definition perform :: "call \<Rightarrow> ('w \<Rightarrow> 'a \<times> 'w) \<Rightarrow> 'w state \<Rightarrow> 'a \<times> 'w state" where
  "perform c f st =
     (let (r, w) = f (world st) in (r, \<lparr>world = w, trace = trace st @ [c]\<rparr>))"

definition doLookupMX :: "'w net \<Rightarrow> string \<Rightarrow> 'w state \<Rightarrow> (MX list \<times> error option) \<times> 'w state" where
  "doLookupMX nt domain = perform (CallLookupMX domain) (LookupMX nt domain)"

definition doDig :: "'w net \<Rightarrow> string list \<Rightarrow> 'w state \<Rightarrow> (string \<times> error option) \<times> 'w state" where
  "doDig nt args = perform (CallDig args) (CommandOutput nt ''dig'' args)"

definition doDialTimeout ::
  "'w net \<Rightarrow> string \<Rightarrow> string \<Rightarrow> 64 word \<Rightarrow> 'w state \<Rightarrow> (conn \<times> error option) \<times> 'w state" where
  "doDialTimeout nt network address timeout =
     perform (CallDialTimeout network address timeout) (DialTimeout nt network address timeout)"

definition doNewClient ::
  "'w net \<Rightarrow> conn \<Rightarrow> string \<Rightarrow> 'w state \<Rightarrow> (client \<times> error option) \<times> 'w state" where
  "doNewClient nt c host = perform (CallNewClient c host) (NewClient nt c host)"

definition doExtension ::
  "'w net \<Rightarrow> client \<Rightarrow> string \<Rightarrow> 'w state \<Rightarrow> (bool \<times> string) \<times> 'w state" where
  "doExtension nt cl ext = perform (CallExtension cl ext) (Extension nt cl ext)"

definition doQuit :: "'w net \<Rightarrow> client \<Rightarrow> 'w state \<Rightarrow> 'w state" where
  "doQuit nt cl st = snd (perform (CallQuit cl) (Quit nt cl) st)"

definition doClose :: "'w net \<Rightarrow> conn \<Rightarrow> 'w state \<Rightarrow> 'w state" where
  "doClose nt c st = snd (perform (CallClose c) (Close nt c) st)"

definition doPrintf :: "'w net \<Rightarrow> string \<Rightarrow> 'w state \<Rightarrow> 'w state" where
  "doPrintf nt msg st = snd (perform (CallPrintf msg) (\<lambda>w. ((), Printf nt msg w)) st)"

text \<open>The verb \<open>%v\<close> on an error value: its message, or \<open><nil>\<close>.\<close>

definition showError :: "error option \<Rightarrow> string" where
  "showError e = (case e of None \<Rightarrow> ''<nil>'' | Some (Error msg) \<Rightarrow> msg)"

text \<open>\<open>if ec.config.Verbose { fmt.Printf(...) }\<close>\<close>

definition logVerbose :: "Config \<Rightarrow> 'w net \<Rightarrow> string \<Rightarrow> 'w state \<Rightarrow> 'w state" where
  "logVerbose cfg nt msg st = (if Verbose cfg then doPrintf nt msg st else st)"

definition hasMXRecord :: "Config \<Rightarrow> 'w net \<Rightarrow> string \<Rightarrow> 'w state \<Rightarrow> bool \<times> 'w state" where
  "hasMXRecord cfg nt domain st =
     (let ((mxRecords, err), st1) = doLookupMX nt domain st
      in if err \<noteq> None then
           (False,
            logVerbose cfg nt
              (''MX lookup failed for '' @ domain @ '': '' @ showError err @ [CHR 0x0A]) st1)
         else (length mxRecords > 0, st1))"

definition hasDNSSEC :: "Config \<Rightarrow> 'w net \<Rightarrow> string \<Rightarrow> 'w state \<Rightarrow> bool \<times> 'w state" where
  "hasDNSSEC cfg nt domain st =
     (let ((output, err), st1) = doDig nt [''+dnssec'', ''+short'', ''SOA'', domain] st
      in if err \<noteq> None then
           (False,
            logVerbose cfg nt
              (''DNSSEC check failed for '' @ domain @ '': '' @ showError err @ [CHR 0x0A]) st1)
         else
           (Contains output ''RRSIG'' \<or> Contains (ToUpper output) ''RRSIG'', st1))"

text \<open>The loop of \<open>getPrimaryMXServer\<close>: \<open>primaryMX\<close> starts as \<open>nil\<close> (\<open>None\<close>) and is
  replaced by a record of strictly smaller preference.\<close>

primrec primaryLoop :: "MX option \<Rightarrow> MX list \<Rightarrow> MX option" where
  "primaryLoop primaryMX [] = primaryMX"
| "primaryLoop primaryMX (mx # rest) =
     primaryLoop
       (case primaryMX of
          None \<Rightarrow> Some mx
        | Some p \<Rightarrow> if Pref mx < Pref p then Some mx else Some p)
       rest"

definition getPrimaryMXServer :: "Config \<Rightarrow> 'w net \<Rightarrow> string \<Rightarrow> 'w state \<Rightarrow> string \<times> 'w state" where
  "getPrimaryMXServer cfg nt domain st =
     (let ((mxRecords, err), st1) = doLookupMX nt domain st
      in if err \<noteq> None \<or> length mxRecords = 0 then
           ([],
            logVerbose cfg nt
              (''Failed to get MX records for '' @ domain @ '': '' @ showError err @ [CHR 0x0A])
              st1)
         else
           (case primaryLoop None mxRecords of
              Some primaryMX \<Rightarrow>
                (let host = Host primaryMX
                 in if HasSuffix host ''.'' then take (length host - 1) host else host,
                 st1)
            | None \<Rightarrow> ([], st1)))"

text \<open>\<open>time.Duration(ec.config.Timeout) * time.Second\<close> is a product of 64-bit integers.
  The two deferred calls run after the result is computed, \<open>client.Quit\<close> before
  \<open>conn.Close\<close>.\<close>

definition smtpSupportsSTARTTLS :: "Config \<Rightarrow> 'w net \<Rightarrow> string \<Rightarrow> 'w state \<Rightarrow> bool \<times> 'w state" where
  "smtpSupportsSTARTTLS cfg nt mxServer st =
     (let timeout = Timeout cfg * 1000000000;
          ((c, err), st1) = doDialTimeout nt ''tcp'' (mxServer @ '':25'') timeout st
      in if err \<noteq> None then
           (False,
            logVerbose cfg nt
              (''Failed to connect to SMTP server '' @ mxServer @ '': '' @ showError err
                 @ [CHR 0x0A]) st1)
         else
           let ((cl, err2), st2) = doNewClient nt c mxServer st1
           in if err2 \<noteq> None then
                (False,
                 doClose nt c
                   (logVerbose cfg nt
                      (''Failed to create SMTP client for '' @ mxServer @ '': ''
                         @ showError err2 @ [CHR 0x0A]) st2))
              else
                let ((ok, params), st3) = doExtension nt cl ''STARTTLS'' st2
                in (ok, doClose nt c (doQuit nt cl st3)))"

section \<open>The validation pipeline\<close>

record ValidationResult =
  Valid :: bool
  Reason :: string
  NormalizedEmail :: string
  Domain :: string
  HasMXRecord :: bool
  HasDNSSEC :: bool
  PrimaryMXServer :: string
  SupportsSTARTTLS :: bool

text \<open>\<open>&ValidationResult{}\<close>: every field at its zero value.\<close>

definition zeroResult :: ValidationResult where
  "zeroResult =
     \<lparr>Valid = False, Reason = [], NormalizedEmail = [], Domain = [], HasMXRecord = False,
      HasDNSSEC = False, PrimaryMXServer = [], SupportsSTARTTLS = False\<rparr>"

definition ValidateEmail ::
  "Config \<Rightarrow> 'w net \<Rightarrow> string \<Rightarrow> 'w state \<Rightarrow> ValidationResult \<times> 'w state" where
  "ValidateEmail cfg nt email st =
     (let result = zeroResult
      in if \<not> isValidEmailFormat email then
           (result\<lparr>Valid := False, Reason := ''Invalid email format'',
                   NormalizedEmail := email\<rparr>, st)
         else
           let result = result\<lparr>NormalizedEmail := normalizeEmail email\<rparr>;
               result = result\<lparr>Domain := extractDomain (NormalizedEmail result)\<rparr>;
               (mx, st1) = hasMXRecord cfg nt (Domain result) st;
               result = result\<lparr>HasMXRecord := mx\<rparr>
           in if \<not> HasMXRecord result then
                (result\<lparr>Valid := False, Reason := ''Domain doesn't have MX record''\<rparr>, st1)
              else
                let (sec, st2) = hasDNSSEC cfg nt (Domain result) st1;
                    result = result\<lparr>HasDNSSEC := sec\<rparr>
                in if \<not> HasDNSSEC result then
                     (result\<lparr>Valid := False, Reason := ''Domain doesn't support DNSSEC''\<rparr>,
                      st2)
                   else
                     let (primary, st3) = getPrimaryMXServer cfg nt (Domain result) st2;
                         result = result\<lparr>PrimaryMXServer := primary\<rparr>
                     in if PrimaryMXServer result = [] then
                          (result\<lparr>Valid := False, Reason := ''Failed to get MX server''\<rparr>,
                           st3)
                        else
                          let (tls, st4) =
                                smtpSupportsSTARTTLS cfg nt (PrimaryMXServer result) st3;
                              result = result\<lparr>SupportsSTARTTLS := tls\<rparr>
                          in if \<not> SupportsSTARTTLS result then
                               (result\<lparr>Valid := False,
                                  Reason := ''SMTP server doesn't support STARTTLS''\<rparr>, st4)
                             else
                               (result\<lparr>Valid := True,
                                  Reason :=
                                    ''Email is valid and domain supports secure mail delivery''\<rparr>,
                                st4))"

section \<open>Configuration and stubbed collaborators\<close>

text \<open>\<open>config.DefaultConfig\<close>, and a network whose answers are fixed in advance, as a
  test double would be; its world counts the calls it has answered.\<close>

definition DefaultConfig :: Config where
  "DefaultConfig = \<lparr>Timeout = 10, Verbose = False\<rparr>"

definition stubNet ::
  "(MX list \<times> error option) \<Rightarrow> (string \<times> error option) \<Rightarrow> bool \<Rightarrow> nat net" where
  "stubNet mx dig tls =
     \<lparr>LookupMX = (\<lambda>domain w. (mx, Suc w)),
      CommandOutput = (\<lambda>name args w. (dig, Suc w)),
      DialTimeout = (\<lambda>network address timeout w. ((0, None), Suc w)),
      NewClient = (\<lambda>c host w. ((0, None), Suc w)),
      Extension = (\<lambda>cl ext w. ((tls, []), Suc w)),
      Quit = (\<lambda>cl w. (None, Suc w)),
      Close = (\<lambda>c w. (None, Suc w)),
      Printf = (\<lambda>msg w. w)\<rparr>"

definition initial :: "'w \<Rightarrow> 'w state" where
  "initial w = \<lparr>world = w, trace = []\<rparr>"

section \<open>The structural pattern of the specification\<close>

text \<open>
  The specification describes the format in words: a non-empty local part drawn from
  the allowed character class, exactly one \<open>@\<close>, and a domain of dot-separated labels,
  each of 1 to 63 characters, alphanumeric with hyphens inside only. \<open>structuralFormat\<close>
  is that description, to be compared with the expression of the source; the allowed
  class is the one the source lists.
\<close>

definition isAlnum :: "char \<Rightarrow> bool" where
  "isAlnum c = (isLowerByte c \<or> isUpperByte c \<or> isDigitByte c)"

definition isLocalChar :: "char \<Rightarrow> bool" where
  "isLocalChar c =
     (isAlnum c \<or>
      c \<in> set [CHR ''.'', CHR ''!'', CHR ''#'', CHR ''$'', CHR ''%'', CHR ''&'', CHR 0x27,
                CHR ''*'', CHR ''+'', CHR ''/'', CHR ''='', CHR ''?'', CHR ''^'', CHR ''_'',
                CHR 0x60, CHR ''{'', CHR ''|'', CHR ''}'', CHR ''~'', CHR ''-''])"

definition labelOK :: "string \<Rightarrow> bool" where
  "labelOK w =
     (1 \<le> length w \<and> length w \<le> 63 \<and> list_all (\<lambda>c. isAlnum c \<or> c = CHR ''-'') w \<and>
      isAlnum (hd w) \<and> isAlnum (last w))"

definition structuralFormat :: "string \<Rightarrow> bool" where
  "structuralFormat s =
     (case Split s CHR ''@'' of
        [l, d] \<Rightarrow> l \<noteq> [] \<and> list_all isLocalChar l \<and> list_all labelOK (Split d CHR ''.'')
      | _ \<Rightarrow> False)"

section \<open>Trimmed strings\<close>

text \<open>A string is trimmed when it neither starts nor ends with a white-space byte.\<close>

definition trimmed :: "string \<Rightarrow> bool" where
  "trimmed s = (s = [] \<or> (\<not> asciiSpace (hd s) \<and> \<not> asciiSpace (last s)))"

section \<open>Languages\<close>

text \<open>The left quotient of a language by a byte, the language of single bytes that
  satisfy a predicate, and the tails \<open>.label.label\<close> of a domain.\<close>

definition Deriv :: "char \<Rightarrow> string set \<Rightarrow> string set" where
  "Deriv c A = {w. c # w \<in> A}"

definition bytes :: "(char \<Rightarrow> bool) \<Rightarrow> string set" where
  "bytes P = {[c] | c. P c}"

definition dotLabels :: "string set" where
  "dotLabels = star (conc {''.''} (Collect labelOK))"

section \<open>Derivatives are sound and complete\<close>

lemma Deriv_simps [simp]:
  "Deriv c {} = {}" "Deriv c {[]} = {}" "Deriv c {[a]} = (if c = a then {[]} else {})"
  "Deriv c (A \<union> B) = Deriv c A \<union> Deriv c B"
  "Deriv c (insert [] A) = Deriv c A"
  by (auto simp: Deriv_def)

lemma Deriv_conc:
  "Deriv c (conc A B) = conc (Deriv c A) B \<union> (if [] \<in> A then Deriv c B else {})"
  unfolding Deriv_def conc_def
  by (auto simp: Cons_eq_append_conv) 

lemma Deriv_star: "Deriv c (star A) = conc (Deriv c A) (star A)"
proof
  have "w \<in> star A \<Longrightarrow> \<forall>v. w = c # v \<longrightarrow> v \<in> conc (Deriv c A) (star A)" for w
  proof (induction rule: star.induct)
    case star_nil
    show ?case by simp
  next
    case (star_app u x)
    show ?case
    proof (cases u)
      case Nil
      with star_app show ?thesis by simp
    next
      case (Cons a u')
      with star_app show ?thesis
        by (auto simp: conc_def Deriv_def)
    qed
  qed
  then show "Deriv c (star A) \<subseteq> conc (Deriv c A) (star A)"
    by (auto simp: Deriv_def)
next
  show "conc (Deriv c A) (star A) \<subseteq> Deriv c (star A)"
    using star_app [of "c # u" A for u] by (fastforce simp: conc_def Deriv_def)
qed

lemma conc_mono_right: "B \<subseteq> C \<Longrightarrow> conc A B \<subseteq> conc A C"
  by (auto simp: conc_def)

lemma upto_mono: "upto A n \<subseteq> upto A (Suc n)"
proof (induction n)
  case 0
  show ?case by simp
next
  case (Suc n)
  from conc_mono_right [OF Suc] show ?case by auto
qed

lemma Deriv_upto_sub: "Deriv c (upto A n) \<subseteq> conc (Deriv c A) (upto A n)"
proof (induction n)
  case 0
  show ?case by simp
next
  case (Suc n)
  have step: "conc (Deriv c A) (upto A n) \<subseteq> conc (Deriv c A) (upto A (Suc n))"
    by (rule conc_mono_right) (rule upto_mono)
  have "Deriv c (upto A (Suc n)) \<subseteq> conc (Deriv c A) (upto A n) \<union> Deriv c (upto A n)"
    by (auto simp: Deriv_conc split: if_splits)
  also have "\<dots> \<subseteq> conc (Deriv c A) (upto A n)"
    using Suc by blast
  finally show ?case
    using step by blast
qed

lemma Deriv_upto_Suc: "Deriv c (upto A (Suc n)) = conc (Deriv c A) (upto A n)"
  using Deriv_upto_sub [of c A n] by (auto simp: Deriv_conc)

lemma upto_nil [simp]: "[] \<in> upto A n"
  by (cases n) auto

lemma nullable_lang: "nullable r \<longleftrightarrow> [] \<in> lang r"
  by (induction r) (auto simp: conc_def intro: star.star_nil)

lemma lang_deriv: "lang (deriv c r) = Deriv c (lang r)"
proof (induction r)
  case (Upto n r)
  then show ?case
    by (cases n) (simp_all add: Deriv_upto_Suc del: upto.simps, simp)
next
  case (Cls rs)
  show ?case by (auto simp: Deriv_def)
qed (simp_all add: Deriv_conc Deriv_star nullable_lang)

lemma derivs_lang: "nullable (derivs s r) \<longleftrightarrow> s \<in> lang r"
  by (induction s arbitrary: r) (simp_all add: nullable_lang lang_deriv Deriv_def)

lemma MatchString_lang: "MatchString r s \<longleftrightarrow> s \<in> lang r"
  by (simp add: MatchString_def derivs_lang)


section \<open>The pipeline\<close>




text \<open>
  Claim C1. \<open>ValidateEmail\<close> answers \<open>Valid = true\<close> exactly when the five stages all
  succeed, each stage run in the state its predecessor left: the format check, the MX
  check, the DNSSEC check, a non-empty primary MX server and the STARTTLS check. Then
  the reason is the success message, the three evidence flags are true and the primary
  MX server is non-empty. Otherwise \<open>Valid = false\<close> and the reason is that of the first
  stage that failed.
\<close>

theorem ValidateEmail_verdict:
  "(let r = fst (ValidateEmail cfg nt email st);
        fmt = isValidEmailFormat email;
        d = extractDomain (normalizeEmail email);
        (mx, st1) = hasMXRecord cfg nt d st;
        (sec, st2) = hasDNSSEC cfg nt d st1;
        (primary, st3) = getPrimaryMXServer cfg nt d st2;
        (tls, st4) = smtpSupportsSTARTTLS cfg nt primary st3
    in (Valid r \<longleftrightarrow> fmt \<and> mx \<and> sec \<and> primary \<noteq> [] \<and> tls) \<and>
       (Valid r \<longrightarrow>
          Reason r = ''Email is valid and domain supports secure mail delivery'' \<and>
          HasMXRecord r \<and> HasDNSSEC r \<and> SupportsSTARTTLS r \<and> PrimaryMXServer r \<noteq> []) \<and>
       (\<not> Valid r \<longrightarrow>
          Reason r =
            (if \<not> fmt then ''Invalid email format''
             else if \<not> mx then ''Domain doesn't have MX record''
             else if \<not> sec then ''Domain doesn't support DNSSEC''
             else if primary = [] then ''Failed to get MX server''
             else ''SMTP server doesn't support STARTTLS'')))"
  by (simp add: ValidateEmail_def zeroResult_def Let_def split_def)


theorem ValidateEmail_verdict_witness:
  "Valid (fst (ValidateEmail DefaultConfig
       (stubNet ([\<lparr>Host = ''mail.example.com.'', Pref = 10\<rparr>], None) (''RRSIG SOA'', None) True)
       ''User.Name+x@gmail.com'' (initial 0))) \<and>
   Reason (fst (ValidateEmail DefaultConfig
       (stubNet ([\<lparr>Host = ''mail.example.com.'', Pref = 10\<rparr>], None) (''RRSIG SOA'', None) True)
       ''User.Name+x@gmail.com'' (initial 0))) =
     ''Email is valid and domain supports secure mail delivery''"
proof -
  have v: "Valid (fst (ValidateEmail DefaultConfig
       (stubNet ([\<lparr>Host = ''mail.example.com.'', Pref = 10\<rparr>], None) (''RRSIG SOA'', None) True)
       ''User.Name+x@gmail.com'' (initial 0)))"
    by code_simp
  from v ValidateEmail_verdict [of DefaultConfig
       "stubNet ([\<lparr>Host = ''mail.example.com.'', Pref = 10\<rparr>], None) (''RRSIG SOA'', None) True"
       "''User.Name+x@gmail.com''" "initial 0"]
  show ?thesis
    by (simp add: Let_def split_def)
qed



text \<open>
  Claim C10. When the format check fails, the result is the zero result with the reason
  "Invalid email format" and with \<open>NormalizedEmail\<close> set to the input exactly as it was
  given; \<open>Valid\<close> keeps its zero value, false.
\<close>

theorem format_failure_result:
  "\<not> isValidEmailFormat email \<Longrightarrow>
     fst (ValidateEmail cfg nt email st) =
       zeroResult\<lparr>Reason := ''Invalid email format'', NormalizedEmail := email\<rparr>"
  by (simp add: ValidateEmail_def zeroResult_def)

theorem format_failure_result_witness:
  "\<not> isValidEmailFormat '' A.b@Gmail.com'' \<and>
   NormalizedEmail (fst (ValidateEmail DefaultConfig (stubNet ([], None) ([], None) True)
      '' A.b@Gmail.com'' (initial 0))) = '' A.b@Gmail.com''"
proof -
  have h: "\<not> isValidEmailFormat '' A.b@Gmail.com''" by code_simp
  show ?thesis
    using h format_failure_result [OF h, of DefaultConfig "stubNet ([], None) ([], None) True" "initial 0"]
    by simp
qed


section \<open>The MX resolver and the DNSSEC prober\<close>

lemma primaryLoop_Some:
  "\<exists>pre m post. p # rest = pre @ m # post \<and> primaryLoop (Some p) rest = Some m \<and>
     (\<forall>x\<in>set pre. Pref m < Pref x) \<and> (\<forall>x\<in>set post. Pref m \<le> Pref x)"
proof (induction rest arbitrary: p)
  case Nil
  have "[p] = [] @ p # [] \<and> primaryLoop (Some p) [] = Some p" by simp
  then show ?case by fastforce
next
  case (Cons mx rest)
  show ?case
  proof (cases "Pref mx < Pref p")
    case True
    from Cons [of mx] obtain pre m post where
      d: "mx # rest = pre @ m # post" and l: "primaryLoop (Some mx) rest = Some m"
      and a: "\<forall>x\<in>set pre. Pref m < Pref x" and b: "\<forall>x\<in>set post. Pref m \<le> Pref x"
      by blast
    have "Pref m \<le> Pref mx"
    proof (cases pre)
      case Nil
      with d show ?thesis by simp
    next
      case (Cons y ys)
      with d a show ?thesis by auto
    qed
    with True have "Pref m < Pref p" by simp
    with a have a': "\<forall>x\<in>set (p # pre). Pref m < Pref x" by simp
    have "p # mx # rest = (p # pre) @ m # post" using d by simp
    moreover have "primaryLoop (Some p) (mx # rest) = Some m" using True l by simp
    ultimately show ?thesis using a' b by blast
  next
    case False
    from Cons [of p] obtain pre m post where
      d: "p # rest = pre @ m # post" and l: "primaryLoop (Some p) rest = Some m"
      and a: "\<forall>x\<in>set pre. Pref m < Pref x" and b: "\<forall>x\<in>set post. Pref m \<le> Pref x"
      by blast
    have l': "primaryLoop (Some p) (mx # rest) = Some m" using False l by simp
    show ?thesis
    proof (cases pre)
      case Nil
      with d have "m = p" "post = rest" by simp_all
      with b False have "\<forall>x\<in>set (mx # rest). Pref m \<le> Pref x" by simp
      moreover have "p # mx # rest = [] @ m # (mx # rest)" using \<open>m = p\<close> by simp
      moreover have "\<forall>x\<in>set ([]::MX list). Pref m < Pref x" by simp
      ultimately show ?thesis using l' by blast
    next
      case (Cons y ys)
      with d have "y = p" and r: "rest = ys @ m # post" by simp_all
      with a Cons have "Pref m < Pref p" by simp
      with False have "Pref m < Pref mx" by simp
      with a Cons \<open>y = p\<close> have "\<forall>x\<in>set (p # mx # ys). Pref m < Pref x" by simp
      moreover have "p # mx # rest = (p # mx # ys) @ m # post" using r by simp
      ultimately show ?thesis using l' b by blast
    qed
  qed
qed

lemma primaryLoop_None:
  "recs \<noteq> [] \<Longrightarrow>
   \<exists>pre m post. recs = pre @ m # post \<and> primaryLoop None recs = Some m \<and>
     (\<forall>x\<in>set pre. Pref m < Pref x) \<and> (\<forall>x\<in>set post. Pref m \<le> Pref x)"
  using primaryLoop_Some by (cases recs) simp_all

lemma HasSuffix_dot: "HasSuffix h ''.'' \<longleftrightarrow> (\<exists>h'. h = h' @ ''.'')"
proof (cases h rule: rev_cases)
  case Nil
  then show ?thesis by (simp add: HasSuffix_def)
next
  case (snoc ys y)
  then show ?thesis by (auto simp: HasSuffix_def)
qed






text \<open>
  Claim C6. \<open>getPrimaryMXServer\<close> returns the empty string when the lookup reports an
  error or no record. Otherwise the records are \<open>pre @ m # post\<close> where every record
  before \<open>m\<close> has a strictly greater preference and every record after it a preference
  at least as great, so \<open>m\<close> is the first record of minimum preference in the
  resolver's order; the result is the host of \<open>m\<close> without its final dot when it ends
  with one, and the host of \<open>m\<close> as it is otherwise.
\<close>

theorem getPrimaryMXServer_selects:
  "(snd (fst (LookupMX nt d (world st))) \<noteq> None \<or> fst (fst (LookupMX nt d (world st))) = [] \<longrightarrow>
      fst (getPrimaryMXServer cfg nt d st) = []) \<and>
   (snd (fst (LookupMX nt d (world st))) = None \<and> fst (fst (LookupMX nt d (world st))) \<noteq> [] \<longrightarrow>
      (\<exists>pre m post.
         fst (fst (LookupMX nt d (world st))) = pre @ m # post \<and>
         (\<forall>x\<in>set pre. Pref m < Pref x) \<and> (\<forall>x\<in>set post. Pref m \<le> Pref x) \<and>
         ((\<exists>h. Host m = h @ ''.'' \<and> fst (getPrimaryMXServer cfg nt d st) = h) \<or>
          (\<not> (\<exists>h. Host m = h @ ''.'') \<and> fst (getPrimaryMXServer cfg nt d st) = Host m))))"
proof (intro conjI impI)
  assume "snd (fst (LookupMX nt d (world st))) \<noteq> None \<or> fst (fst (LookupMX nt d (world st))) = []"
  then show "fst (getPrimaryMXServer cfg nt d st) = []"
    by (auto simp: getPrimaryMXServer_def doLookupMX_def perform_def split_def Let_def)
next
  let ?recs = "fst (fst (LookupMX nt d (world st)))"
  assume h: "snd (fst (LookupMX nt d (world st))) = None \<and> ?recs \<noteq> []"
  then obtain pre m post where
    d: "?recs = pre @ m # post" and l: "primaryLoop None ?recs = Some m"
    and a: "\<forall>x\<in>set pre. Pref m < Pref x" and b: "\<forall>x\<in>set post. Pref m \<le> Pref x"
    using primaryLoop_None [of ?recs] by blast
  have r: "fst (getPrimaryMXServer cfg nt d st) =
     (if HasSuffix (Host m) ''.'' then take (length (Host m) - 1) (Host m) else Host m)"
    using h l by (simp add: getPrimaryMXServer_def doLookupMX_def perform_def split_def Let_def)
  have "(\<exists>h. Host m = h @ ''.'' \<and> fst (getPrimaryMXServer cfg nt d st) = h) \<or>
          (\<not> (\<exists>h. Host m = h @ ''.'') \<and> fst (getPrimaryMXServer cfg nt d st) = Host m)"
  proof (cases "HasSuffix (Host m) ''.''")
    case True
    then obtain h' where "Host m = h' @ ''.''" by (auto simp: HasSuffix_dot)
    with r True show ?thesis by simp
  next
    case False
    with r show ?thesis by (simp add: HasSuffix_dot)
  qed
  with d a b show "\<exists>pre m post.
         ?recs = pre @ m # post \<and>
         (\<forall>x\<in>set pre. Pref m < Pref x) \<and> (\<forall>x\<in>set post. Pref m \<le> Pref x) \<and>
         ((\<exists>h. Host m = h @ ''.'' \<and> fst (getPrimaryMXServer cfg nt d st) = h) \<or>
          (\<not> (\<exists>h. Host m = h @ ''.'') \<and> fst (getPrimaryMXServer cfg nt d st) = Host m))"
    by blast
qed


theorem getPrimaryMXServer_selects_witness:
  "(snd (fst (LookupMX
      (stubNet ([\<lparr>Host = ''c.example.com'', Pref = 20\<rparr>, \<lparr>Host = ''a.example.com.'', Pref = 5\<rparr>,
                 \<lparr>Host = ''b.example.com.'', Pref = 5\<rparr>], None) ([], None) True)
      ''example.com'' (world (initial 0)))) = None \<and>
    fst (fst (LookupMX
      (stubNet ([\<lparr>Host = ''c.example.com'', Pref = 20\<rparr>, \<lparr>Host = ''a.example.com.'', Pref = 5\<rparr>,
                 \<lparr>Host = ''b.example.com.'', Pref = 5\<rparr>], None) ([], None) True)
      ''example.com'' (world (initial 0)))) \<noteq> []) \<and>
   (\<exists>pre m post.
      fst (fst (LookupMX
        (stubNet ([\<lparr>Host = ''c.example.com'', Pref = 20\<rparr>, \<lparr>Host = ''a.example.com.'', Pref = 5\<rparr>,
                   \<lparr>Host = ''b.example.com.'', Pref = 5\<rparr>], None) ([], None) True)
        ''example.com'' (world (initial 0)))) = pre @ m # post \<and>
      (\<forall>x\<in>set pre. Pref m < Pref x) \<and> (\<forall>x\<in>set post. Pref m \<le> Pref x) \<and>
      ((\<exists>h. Host m = h @ ''.'' \<and>
          fst (getPrimaryMXServer DefaultConfig
            (stubNet ([\<lparr>Host = ''c.example.com'', Pref = 20\<rparr>, \<lparr>Host = ''a.example.com.'', Pref = 5\<rparr>,
                       \<lparr>Host = ''b.example.com.'', Pref = 5\<rparr>], None) ([], None) True)
            ''example.com'' (initial 0)) = h) \<or>
       (\<not> (\<exists>h. Host m = h @ ''.'') \<and>
          fst (getPrimaryMXServer DefaultConfig
            (stubNet ([\<lparr>Host = ''c.example.com'', Pref = 20\<rparr>, \<lparr>Host = ''a.example.com.'', Pref = 5\<rparr>,
                       \<lparr>Host = ''b.example.com.'', Pref = 5\<rparr>], None) ([], None) True)
            ''example.com'' (initial 0)) = Host m)))"
proof -
  let ?nt = "stubNet ([\<lparr>Host = ''c.example.com'', Pref = 20\<rparr>, \<lparr>Host = ''a.example.com.'', Pref = 5\<rparr>,
                 \<lparr>Host = ''b.example.com.'', Pref = 5\<rparr>], None) ([], None) True"
  have h: "snd (fst (LookupMX ?nt ''example.com'' (world (initial 0)))) = None \<and>
           fst (fst (LookupMX ?nt ''example.com'' (world (initial 0)))) \<noteq> []"
    by (simp add: stubNet_def)
  from h getPrimaryMXServer_selects [of ?nt "''example.com''" "initial 0" DefaultConfig]
  show ?thesis by blast
qed





section \<open>Splitting, normalisation and domain extraction\<close>

lemma Split_nonempty: "Split s sep \<noteq> []"
  by (induction s) (auto split: list.splits)

lemma Split_noSep: "sep \<notin> set s \<Longrightarrow> Split s sep = [s]"
  by (induction s) auto

lemma Split_append: "sep \<notin> set u \<Longrightarrow> Split (u @ sep # v) sep = u # Split v sep"
  by (induction u) auto

lemma length_Split: "length (Split s sep) = Suc (count_list s sep)"
  by (induction s) (auto split: list.splits simp: Split_nonempty)

lemma count_one_split:
  "count_list s sep = 1 \<Longrightarrow> \<exists>l d. s = l @ sep # d \<and> sep \<notin> set l \<and> sep \<notin> set d"
proof -
  assume c: "count_list s sep = 1"
  then have "sep \<in> set s"
    by (metis count_list_0_iff zero_neq_one)
  then obtain l d where s: "s = l @ sep # d" and l: "sep \<notin> set l"
    by (meson split_list_first)
  from c s l have "count_list d sep = 0"
    by (simp add: count_list_0_iff)
  then have "sep \<notin> set d"
    by (simp add: count_list_0_iff)
  with s l show ?thesis by blast
qed

lemma Split_two:
  "length (Split s sep) = 2 \<longleftrightarrow> (\<exists>l d. s = l @ sep # d \<and> sep \<notin> set l \<and> sep \<notin> set d)"
proof
  assume "length (Split s sep) = 2"
  then have "count_list s sep = 1" by (simp add: length_Split)
  then show "\<exists>l d. s = l @ sep # d \<and> sep \<notin> set l \<and> sep \<notin> set d"
    by (rule count_one_split)
next
  assume "\<exists>l d. s = l @ sep # d \<and> sep \<notin> set l \<and> sep \<notin> set d"
  then show "length (Split s sep) = 2"
    by (auto simp: Split_append Split_noSep)
qed

lemma Split_parts:
  "sep \<notin> set l \<Longrightarrow> sep \<notin> set d \<Longrightarrow> Split (l @ sep # d) sep = [l, d]"
  by (simp add: Split_append Split_noSep)

lemma ReplaceAll_delete: "ReplaceAll s b [] = filter (\<lambda>c. c \<noteq> b) s"
  by (induction s) (auto simp: ReplaceAll_def)

lemma Index_takeWhile:
  "Index s b = (if b \<in> set s then int (length (takeWhile (\<lambda>c. c \<noteq> b) s)) else - 1)"
  by (induction s) (auto simp: Let_def)

lemma take_Index:
  "(if Index s b \<noteq> - 1 then take (nat (Index s b)) s else s) = takeWhile (\<lambda>c. c \<noteq> b) s"
proof (cases "b \<in> set s")
  case True
  then show ?thesis
    by (simp add: Index_takeWhile takeWhile_eq_take [symmetric])
next
  case False
  have "(if Index s b \<noteq> - 1 then take (nat (Index s b)) s else s) = s"
    using False by (simp add: Index_takeWhile)
  also have "s = takeWhile (\<lambda>c. c \<noteq> b) s"
    using False by (induction s) auto
  finally show ?thesis .
qed

text \<open>What \<open>normalizeEmail\<close> does once the address is trimmed and lower-cased.\<close>

lemma normalizeEmail_not_two:
  "count_list (ToLower (TrimSpace a)) CHR ''@'' \<noteq> 1 \<Longrightarrow>
     normalizeEmail a = ToLower (TrimSpace a)"
  by (simp add: normalizeEmail_def Let_def length_Split)

lemma normalizeEmail_two:
  assumes "ToLower (TrimSpace a) = l @ ''@'' @ d" "CHR ''@'' \<notin> set l" "CHR ''@'' \<notin> set d"
  shows "normalizeEmail a =
     (if d = ''gmail.com'' \<or> d = ''googlemail.com''
      then takeWhile (\<lambda>c. c \<noteq> CHR ''+'') (filter (\<lambda>c. c \<noteq> CHR ''.'') l) @ ''@gmail.com''
      else l @ ''@'' @ d)"
proof -
  have S: "Split (ToLower (TrimSpace a)) CHR ''@'' = [l, d]"
    using assms by (simp add: Split_parts)
  show ?thesis
    unfolding normalizeEmail_def Let_def S
    using take_Index [of "filter (\<lambda>c. c \<noteq> CHR ''.'') l" "CHR ''+''"]
    by (auto simp: ReplaceAll_delete split: if_splits)
qed

lemma extractDomain_two:
  "CHR ''@'' \<notin> set l \<Longrightarrow> CHR ''@'' \<notin> set d \<Longrightarrow>
     extractDomain (l @ ''@'' @ d) = ToLower (TrimSpace d)"
  by (simp add: extractDomain_def Split_parts)







section \<open>What the expression of the format validator accepts\<close>

lemma inClass_append: "inClass (a @ b) c \<longleftrightarrow> inClass a c \<or> inClass b c"
  by (simp add: inClass_def)

lemma inClass_single: "inClass [(x, x)] c \<longleftrightarrow> c = x"
  by (auto simp: inClass_def)

lemma inClass_singles: "inClass (map (\<lambda>x. (x, x)) xs) c \<longleftrightarrow> c \<in> set xs"
  by (induction xs) (auto simp: inClass_def)

lemma inClass_alnum: "inClass alnum c \<longleftrightarrow> isAlnum c"
  by (auto simp: inClass_def alnum_def isAlnum_def isLowerByte_def isUpperByte_def
      isDigitByte_def)

lemma inClass_alnumHyphen: "inClass alnumHyphen c \<longleftrightarrow> isAlnum c \<or> c = CHR ''-''"
  unfolding alnumHyphen_def inClass_append inClass_alnum inClass_single ..

lemma inClass_localClass: "inClass localClass c \<longleftrightarrow> isLocalChar c"
  unfolding localClass_def inClass_append inClass_alnum inClass_singles isLocalChar_def ..

lemma isAlnum_plain:
  "isAlnum c \<Longrightarrow> c \<noteq> CHR ''@'' \<and> c \<noteq> CHR ''.'' \<and> \<not> asciiSpace c \<and> isASCII c"
  by (auto simp: isAlnum_def isLowerByte_def isUpperByte_def isDigitByte_def asciiSpace_def
      isASCII_def)

lemma isLocalChar_plain: "isLocalChar c \<Longrightarrow> c \<noteq> CHR ''@'' \<and> \<not> asciiSpace c \<and> isASCII c"
  unfolding isLocalChar_def
  using isAlnum_plain [of c] by (auto simp: asciiSpace_def isASCII_def)

lemma star_bytes: "w \<in> star (bytes P) \<longleftrightarrow> (\<forall>c\<in>set w. P c)"
proof
  assume "w \<in> star (bytes P)"
  then show "\<forall>c\<in>set w. P c"
    by (induction rule: star.induct) (auto simp: bytes_def)
next
  assume "\<forall>c\<in>set w. P c"
  then show "w \<in> star (bytes P)"
  proof (induction w)
    case Nil
    show ?case by (rule star_nil)
  next
    case (Cons a w)
    then have "[a] \<in> bytes P" and "w \<in> star (bytes P)"
      by (simp_all add: bytes_def)
    then have "[a] @ w \<in> star (bytes P)" by (rule star_app)
    then show ?case by simp
  qed
qed

lemma conc_bytes: "w \<in> conc (bytes P) B \<longleftrightarrow> (\<exists>c v. w = c # v \<and> P c \<and> v \<in> B)"
proof
  assume "w \<in> conc (bytes P) B"
  then show "\<exists>c v. w = c # v \<and> P c \<and> v \<in> B"
    by (auto simp: conc_def bytes_def)
next
  assume "\<exists>c v. w = c # v \<and> P c \<and> v \<in> B"
  then obtain c v where "w = [c] @ v" and "[c] \<in> bytes P" and "v \<in> B"
    by (auto simp: bytes_def)
  then show "w \<in> conc (bytes P) B"
    unfolding conc_def by blast
qed

lemma conc_bytes_right: "w \<in> conc B (bytes P) \<longleftrightarrow> (\<exists>v c. w = v @ [c] \<and> P c \<and> v \<in> B)"
proof
  assume "w \<in> conc B (bytes P)"
  then show "\<exists>v c. w = v @ [c] \<and> P c \<and> v \<in> B"
    by (auto simp: conc_def bytes_def)
next
  assume "\<exists>v c. w = v @ [c] \<and> P c \<and> v \<in> B"
  then obtain v c where "w = v @ [c]" and "[c] \<in> bytes P" and "v \<in> B"
    by (auto simp: bytes_def)
  then show "w \<in> conc B (bytes P)"
    unfolding conc_def by blast
qed

lemma plus_bytes:
  "w \<in> conc (bytes P) (star (bytes P)) \<longleftrightarrow> w \<noteq> [] \<and> (\<forall>c\<in>set w. P c)"
  by (cases w) (auto simp: conc_bytes star_bytes)

lemma upto_bytes: "w \<in> upto (bytes P) n \<longleftrightarrow> length w \<le> n \<and> (\<forall>c\<in>set w. P c)"
proof (induction n arbitrary: w)
  case 0
  show ?case by auto
next
  case (Suc n)
  show ?case
    by (cases w) (auto simp: conc_bytes Suc)
qed

lemma bytes_alnum: "lang (Cls alnum) = bytes isAlnum"
  by (simp add: bytes_def inClass_alnum)

lemma bytes_alnumHyphen: "lang (Cls alnumHyphen) = bytes (\<lambda>c. isAlnum c \<or> c = CHR ''-'')"
  by (simp add: bytes_def inClass_alnumHyphen)

lemma bytes_localClass: "lang (Cls localClass) = bytes isLocalChar"
  by (simp add: bytes_def inClass_localClass)

lemma lang_labelRegex_shape:
  "w \<in> lang labelRegex \<longleftrightarrow>
      (\<exists>a v. w = a # v \<and> isAlnum a \<and>
         (v = [] \<or>
          (\<exists>m b. v = m @ [b] \<and> isAlnum b \<and> length m \<le> 61 \<and>
             (\<forall>c\<in>set m. isAlnum c \<or> c = CHR ''-''))))"
  by (simp only: labelRegex_def lang.simps(5) lang.simps(7) lang.simps(10) bytes_alnum
      bytes_alnumHyphen conc_bytes conc_bytes_right upto_bytes insert_iff)

lemma lang_labelRegex: "w \<in> lang labelRegex \<longleftrightarrow> labelOK w"
proof (cases w)
  case Nil
  then show ?thesis by (simp add: lang_labelRegex_shape labelOK_def)
next
  case (Cons a v)
  show ?thesis
  proof (cases v rule: rev_cases)
    case Nil
    with Cons show ?thesis by (auto simp: lang_labelRegex_shape labelOK_def)
  next
    case (snoc m b)
    have "w \<in> lang labelRegex \<longleftrightarrow>
        isAlnum a \<and> isAlnum b \<and> length m \<le> 61 \<and> (\<forall>c\<in>set m. isAlnum c \<or> c = CHR ''-'')"
      unfolding lang_labelRegex_shape using Cons snoc by auto
    also have "\<dots> \<longleftrightarrow> labelOK w"
      unfolding labelOK_def list_all_iff using Cons snoc by auto
    finally show ?thesis .
  qed
qed

lemma labelOK_chars: "labelOK w \<Longrightarrow> c \<in> set w \<Longrightarrow> isAlnum c \<or> c = CHR ''-''"
  by (simp add: labelOK_def list_all_iff)

lemma labelOK_noDot: "labelOK w \<Longrightarrow> CHR ''.'' \<notin> set w"
proof
  assume "labelOK w" and "CHR ''.'' \<in> set w"
  then have "isAlnum CHR ''.'' \<or> CHR ''.'' = CHR ''-''" by (rule labelOK_chars)
  then show False using isAlnum_plain [of "CHR ''.''"] by simp
qed

lemma labelOK_plain:
  assumes "labelOK w" "c \<in> set w"
  shows "c \<noteq> CHR ''@'' \<and> \<not> asciiSpace c \<and> isASCII c"
proof -
  from assms have "isAlnum c \<or> c = CHR ''-''" by (rule labelOK_chars)
  then show ?thesis
  proof
    assume "isAlnum c"
    then show ?thesis using isAlnum_plain [of c] by simp
  next
    assume "c = CHR ''-''"
    then show ?thesis by (simp add: asciiSpace_def isASCII_def)
  qed
qed

lemma domain_Split:
  "labelOK l0 \<Longrightarrow> t \<in> dotLabels \<Longrightarrow> list_all labelOK (Split (l0 @ t) CHR ''.'')"
proof -
  assume t: "t \<in> dotLabels" and l0: "labelOK l0"
  from t have "t \<in> star (conc {''.''} (Collect labelOK))" by (simp add: dotLabels_def)
  then have "\<forall>l0. labelOK l0 \<longrightarrow> list_all labelOK (Split (l0 @ t) CHR ''.'')"
  proof (induction rule: star.induct)
    case star_nil
    show ?case by (simp add: Split_noSep labelOK_noDot)
  next
    case (star_app u v)
    from star_app.hyps(1) obtain l1 where u: "u = CHR ''.'' # l1" and l1: "labelOK l1"
      by (auto simp: conc_def)
    show ?case
    proof (intro allI impI)
      fix l0 assume l0: "labelOK l0"
      have "Split (l0 @ u @ v) CHR ''.'' = l0 # Split (l1 @ v) CHR ''.''"
        using l0 u by (simp add: Split_append labelOK_noDot)
      with l0 l1 star_app.IH show "list_all labelOK (Split (l0 @ u @ v) CHR ''.'')"
        by simp
    qed
  qed
  with l0 show ?thesis by blast
qed

lemma Split_Cons_cases:
  "Split s sep = p # ps \<Longrightarrow>
     (ps = [] \<and> s = p \<and> sep \<notin> set p) \<or>
     (\<exists>r. s = p @ sep # r \<and> sep \<notin> set p \<and> Split r sep = ps)"
proof (induction s arbitrary: p ps)
  case Nil
  then show ?case by simp
next
  case (Cons c cs)
  show ?case
  proof (cases "c = sep")
    case True
    with Cons.prems show ?thesis by auto
  next
    case False
    obtain q qs where S: "Split cs sep = q # qs"
      using Split_nonempty [of cs sep] by (cases "Split cs sep") auto
    with False Cons.prems have p: "p = c # q" and ps: "ps = qs" by simp_all
    from Cons.IH [OF S] show ?thesis
    proof
      assume "qs = [] \<and> cs = q \<and> sep \<notin> set q"
      with p ps False show ?thesis by auto
    next
      assume "\<exists>r. cs = q @ sep # r \<and> sep \<notin> set q \<and> Split r sep = qs"
      then obtain r where "cs = q @ sep # r" "sep \<notin> set q" "Split r sep = qs" by blast
      with p ps False have "c # cs = p @ sep # r \<and> sep \<notin> set p \<and> Split r sep = ps" by auto
      then show ?thesis by blast
    qed
  qed
qed

lemma Split_domain:
  "Split d CHR ''.'' = ps \<Longrightarrow> list_all labelOK ps \<Longrightarrow>
     \<exists>l0 t. d = l0 @ t \<and> labelOK l0 \<and> t \<in> dotLabels"
proof (induction ps arbitrary: d)
  case Nil
  then show ?case by (simp add: Split_nonempty)
next
  case (Cons p ps)
  from Cons.prems(2) have p: "labelOK p" and ps: "list_all labelOK ps" by simp_all
  from Split_Cons_cases [OF Cons.prems(1)] show ?case
  proof
    assume "ps = [] \<and> d = p \<and> CHR ''.'' \<notin> set p"
    then have "d = p @ []" by simp
    moreover have "[] \<in> dotLabels" by (simp add: dotLabels_def star_nil)
    ultimately show ?thesis using p by blast
  next
    assume "\<exists>r. d = p @ CHR ''.'' # r \<and> CHR ''.'' \<notin> set p \<and> Split r CHR ''.'' = ps"
    then obtain r where d: "d = p @ CHR ''.'' # r" and r: "Split r CHR ''.'' = ps" by blast
    from Cons.IH [OF r ps] obtain l1 t where r': "r = l1 @ t" and l1: "labelOK l1"
      and t: "t \<in> dotLabels" by blast
    have "''.'' @ l1 \<in> conc {''.''} (Collect labelOK)"
      using l1 by (auto simp: conc_def)
    from this t have "(''.'' @ l1) @ t \<in> dotLabels"
      unfolding dotLabels_def by (rule star_app)
    moreover have "d = p @ ((''.'' @ l1) @ t)" using d r' by simp
    ultimately show ?thesis using p by blast
  qed
qed

lemma lang_domain:
  "d \<in> lang (Seq labelRegex (Star (Seq (Lit CHR ''.'') labelRegex))) \<longleftrightarrow>
     list_all labelOK (Split d CHR ''.'')"
proof -
  have C: "lang labelRegex = Collect labelOK"
    using lang_labelRegex by blast
  have "d \<in> lang (Seq labelRegex (Star (Seq (Lit CHR ''.'') labelRegex))) \<longleftrightarrow>
      (\<exists>l0 t. d = l0 @ t \<and> labelOK l0 \<and> t \<in> dotLabels)"
    by (auto simp: C conc_def dotLabels_def)
  also have "\<dots> \<longleftrightarrow> list_all labelOK (Split d CHR ''.'')"
    using domain_Split Split_domain by blast
  finally show ?thesis .
qed

lemma chars_of_Split:
  "c \<in> set s \<Longrightarrow> c = sep \<or> (\<exists>p\<in>set (Split s sep). c \<in> set p)"
proof (induction s)
  case Nil
  then show ?case by simp
next
  case (Cons a s)
  obtain q qs where S: "Split s sep = q # qs"
    using Split_nonempty [of s sep] by (cases "Split s sep") auto
  show ?case
  proof (cases "a = sep")
    case True
    with Cons show ?thesis by auto
  next
    case False
    then have A: "Split (a # s) sep = (a # q) # qs" by (simp add: S)
    show ?thesis
    proof (cases "c = a")
      case True
      then show ?thesis unfolding A by simp
    next
      case False
      with Cons.prems have "c \<in> set s" by simp
      with Cons.IH have "c = sep \<or> (\<exists>p\<in>set (q # qs). c \<in> set p)" by (simp add: S)
      then show ?thesis unfolding A by auto
    qed
  qed
qed

lemma domain_plain:
  assumes "list_all labelOK (Split d CHR ''.'')" "c \<in> set d"
  shows "c \<noteq> CHR ''@'' \<and> \<not> asciiSpace c \<and> isASCII c"
proof -
  from chars_of_Split [OF assms(2), of "CHR ''.''"]
  show ?thesis
  proof
    assume "c = CHR ''.''"
    then show ?thesis by (simp add: asciiSpace_def isASCII_def)
  next
    assume "\<exists>p\<in>set (Split d CHR ''.''). c \<in> set p"
    then obtain p where "p \<in> set (Split d CHR ''.'')" and c: "c \<in> set p" by blast
    with assms(1) have "labelOK p" by (simp add: list_all_iff)
    then show ?thesis using c by (rule labelOK_plain)
  qed
qed

lemma domain_nonempty: "list_all labelOK (Split d CHR ''.'') \<Longrightarrow> d \<noteq> []"
  by (auto simp: labelOK_def)

lemma conc_around:
  "s \<in> conc A (conc {[x]} B) \<longleftrightarrow> (\<exists>l d. s = l @ x # d \<and> l \<in> A \<and> d \<in> B)"
proof
  assume "s \<in> conc A (conc {[x]} B)"
  then show "\<exists>l d. s = l @ x # d \<and> l \<in> A \<and> d \<in> B"
    by (auto simp: conc_def)
next
  assume "\<exists>l d. s = l @ x # d \<and> l \<in> A \<and> d \<in> B"
  then obtain l d where s: "s = l @ ([x] @ d)" and l: "l \<in> A" and d: "d \<in> B" by auto
  from d have "[x] @ d \<in> conc {[x]} B" unfolding conc_def by blast
  with l s show "s \<in> conc A (conc {[x]} B)" unfolding conc_def by blast
qed

lemma lang_emailRegex:
  "s \<in> lang emailRegex \<longleftrightarrow>
     (\<exists>l d. s = l @ CHR ''@'' # d \<and> l \<noteq> [] \<and> (\<forall>c\<in>set l. isLocalChar c) \<and>
        list_all labelOK (Split d CHR ''.''))"
proof -
  let ?D = "lang (Seq labelRegex (Star (Seq (Lit CHR ''.'') labelRegex)))"
  have E: "lang emailRegex =
      conc (conc (bytes isLocalChar) (star (bytes isLocalChar))) (conc {''@''} ?D)"
    by (simp only: emailRegex_def lang.simps(5) lang.simps(9) lang.simps(3) bytes_localClass)
  show ?thesis
    unfolding E conc_around plus_bytes lang_domain by blast
qed

lemma structuralFormat_iff:
  "structuralFormat s \<longleftrightarrow>
     (\<exists>l d. s = l @ CHR ''@'' # d \<and> l \<noteq> [] \<and> (\<forall>c\<in>set l. isLocalChar c) \<and>
        list_all labelOK (Split d CHR ''.''))"
proof
  assume sf: "structuralFormat s"
  then obtain l d where S: "Split s CHR ''@'' = [l, d]"
    and c: "l \<noteq> [] \<and> list_all isLocalChar l \<and> list_all labelOK (Split d CHR ''.'')"
    by (auto simp: structuralFormat_def split: list.splits)
  from S have "length (Split s CHR ''@'') = 2" by simp
  then obtain l' d' where s: "s = l' @ CHR ''@'' # d'" and n: "CHR ''@'' \<notin> set l'"
      "CHR ''@'' \<notin> set d'"
    unfolding Split_two by blast
  then have "Split s CHR ''@'' = [l', d']" by (simp add: Split_parts)
  with S have "l' = l" "d' = d" by simp_all
  with s c show "\<exists>l d. s = l @ CHR ''@'' # d \<and> l \<noteq> [] \<and> (\<forall>c\<in>set l. isLocalChar c) \<and>
        list_all labelOK (Split d CHR ''.'')"
    by (auto simp: list_all_iff)
next
  assume "\<exists>l d. s = l @ CHR ''@'' # d \<and> l \<noteq> [] \<and> (\<forall>c\<in>set l. isLocalChar c) \<and>
        list_all labelOK (Split d CHR ''.'')"
  then obtain l d where s: "s = l @ CHR ''@'' # d" and l: "l \<noteq> []"
    and lc: "\<forall>c\<in>set l. isLocalChar c" and dl: "list_all labelOK (Split d CHR ''.'')"
    by blast
  have "CHR ''@'' \<notin> set l" using lc isLocalChar_plain by blast
  moreover have "CHR ''@'' \<notin> set d" using domain_plain [OF dl] by blast
  ultimately have "Split s CHR ''@'' = [l, d]" using s by (simp add: Split_parts)
  then show "structuralFormat s"
    using l lc dl by (simp add: structuralFormat_def list_all_iff)
qed

lemma valid_shape:
  assumes "isValidEmailFormat s"
  shows "\<exists>l d. s = l @ CHR ''@'' # d \<and> CHR ''@'' \<notin> set l \<and> CHR ''@'' \<notin> set d \<and> d \<noteq> [] \<and>
     (\<forall>c\<in>set s. \<not> asciiSpace c \<and> isASCII c)"
proof -
  from assms have "s \<in> lang emailRegex"
    by (simp add: isValidEmailFormat_def MatchString_lang)
  then obtain l d where s: "s = l @ CHR ''@'' # d"
    and lc: "\<forall>c\<in>set l. isLocalChar c" and dl: "list_all labelOK (Split d CHR ''.'')"
    unfolding lang_emailRegex by blast
  have 1: "CHR ''@'' \<notin> set l" using lc isLocalChar_plain by blast
  have 2: "CHR ''@'' \<notin> set d" using domain_plain [OF dl] by blast
  have 3: "d \<noteq> []" using dl by (rule domain_nonempty)
  have 4: "\<forall>c\<in>set l. \<not> asciiSpace c \<and> isASCII c" using lc isLocalChar_plain by blast
  have 5: "\<forall>c\<in>set d. \<not> asciiSpace c \<and> isASCII c" using domain_plain [OF dl] by blast
  have 6: "\<not> asciiSpace CHR ''@'' \<and> isASCII CHR ''@''" by (simp add: asciiSpace_def isASCII_def)
  from 4 5 6 have "\<forall>c\<in>set s. \<not> asciiSpace c \<and> isASCII c" unfolding s by auto
  with s 1 2 3 show ?thesis by blast
qed

text \<open>
  Claim C5. \<open>isValidEmailFormat\<close> accepts a string exactly when it has the structural
  pattern of the specification and is at most 254 bytes long. It rejects the empty
  string, \<open>invalid-email\<close>, \<open>@example.com\<close>, \<open>test@\<close>, \<open>test@.com\<close> and \<open>test@com.\<close>, and
  accepts \<open>test@example.com\<close>, \<open>user.name@domain.co.uk\<close> and \<open>user+tag@example.org\<close>.
\<close>

theorem isValidEmailFormat_structural:
  "(isValidEmailFormat s \<longleftrightarrow> structuralFormat s \<and> length s \<le> 254) \<and>
   \<not> isValidEmailFormat [] \<and>
   \<not> isValidEmailFormat ''invalid-email'' \<and>
   \<not> isValidEmailFormat ''@example.com'' \<and>
   \<not> isValidEmailFormat ''test@'' \<and>
   \<not> isValidEmailFormat ''test@.com'' \<and>
   \<not> isValidEmailFormat ''test@com.'' \<and>
   isValidEmailFormat ''test@example.com'' \<and>
   isValidEmailFormat ''user.name@domain.co.uk'' \<and>
   isValidEmailFormat ''user+tag@example.org''"
proof (intro conjI)
  show "isValidEmailFormat s \<longleftrightarrow> structuralFormat s \<and> length s \<le> 254"
    unfolding isValidEmailFormat_def MatchString_lang lang_emailRegex structuralFormat_iff ..
  show "\<not> isValidEmailFormat []" by code_simp
  show "\<not> isValidEmailFormat ''invalid-email''" by code_simp
  show "\<not> isValidEmailFormat ''@example.com''" by code_simp
  show "\<not> isValidEmailFormat ''test@''" by code_simp
  show "\<not> isValidEmailFormat ''test@.com''" by code_simp
  show "\<not> isValidEmailFormat ''test@com.''" by code_simp
  show "isValidEmailFormat ''test@example.com''" by code_simp
  show "isValidEmailFormat ''user.name@domain.co.uk''" by code_simp
  show "isValidEmailFormat ''user+tag@example.org''" by code_simp
qed

theorem isValidEmailFormat_structural_witness:
  "structuralFormat ''a-1@x-y.example'' \<and> isValidEmailFormat ''a-1@x-y.example'' \<and>
   \<not> structuralFormat ''a@-x.example'' \<and> \<not> isValidEmailFormat ''a@-x.example''"
proof -
  have 1: "isValidEmailFormat ''a-1@x-y.example''" by code_simp
  have 2: "\<not> isValidEmailFormat ''a@-x.example''" by code_simp
  have 3: "length ''a@-x.example'' \<le> 254" by simp
  from 1 2 3 isValidEmailFormat_structural [of "''a-1@x-y.example''"]
    isValidEmailFormat_structural [of "''a@-x.example''"]
  show ?thesis by blast
qed


section \<open>Lower-casing, trimming and the shape of a normalised address\<close>

lemma dropWhile_none: "\<forall>c\<in>set s. \<not> P c \<Longrightarrow> dropWhile P s = s"
  by (cases s) auto

lemma TrimSpace_id: "\<forall>c\<in>set s. \<not> asciiSpace c \<Longrightarrow> TrimSpace s = s"
  by (simp add: TrimSpace_def dropWhile_none)

lemma of_char_toLowerByte:
  "isUpperByte c \<Longrightarrow> (of_char (toLowerByte c) :: nat) = of_char c + 32"
  by (simp add: toLowerByte_def isUpperByte_def)

lemma toLowerByte_not_upper: "\<not> isUpperByte (toLowerByte c)"
proof (cases "isUpperByte c")
  case True
  then have "(of_char (toLowerByte c) :: nat) = of_char c + 32" by (rule of_char_toLowerByte)
  with True show ?thesis by (simp add: isUpperByte_def)
next
  case False
  then show ?thesis by (simp add: toLowerByte_def)
qed

lemma toLowerByte_idem: "toLowerByte (toLowerByte c) = toLowerByte c"
  using toLowerByte_not_upper [of c] by (simp add: toLowerByte_def [of "toLowerByte c"])

lemma toLowerByte_space: "asciiSpace (toLowerByte c) \<longleftrightarrow> asciiSpace c"
proof (cases "isUpperByte c")
  case True
  then have "(of_char (toLowerByte c) :: nat) = of_char c + 32" by (rule of_char_toLowerByte)
  with True show ?thesis by (auto simp: isUpperByte_def asciiSpace_def)
next
  case False
  then show ?thesis by (simp add: toLowerByte_def)
qed

lemma toLowerByte_at: "toLowerByte c = CHR ''@'' \<longleftrightarrow> c = CHR ''@''"
proof (cases "isUpperByte c")
  case True
  then have e: "(of_char (toLowerByte c) :: nat) = of_char c + 32" by (rule of_char_toLowerByte)
  have "toLowerByte c \<noteq> CHR ''@''"
  proof
    assume "toLowerByte c = CHR ''@''"
    then have "(of_char (toLowerByte c) :: nat) = 64" by simp
    with e True show False by (simp add: isUpperByte_def)
  qed
  moreover have "c \<noteq> CHR ''@''" using True by (auto simp: isUpperByte_def)
  ultimately show ?thesis by simp
next
  case False
  then show ?thesis by (simp add: toLowerByte_def)
qed

lemma ToLower_idem: "ToLower (ToLower s) = ToLower s"
  by (simp add: ToLower_def toLowerByte_idem)

lemma ToLower_fixed: "c \<in> set (ToLower s) \<Longrightarrow> toLowerByte c = c"
  by (auto simp: ToLower_def toLowerByte_idem)

lemma ToLower_fix_all: "\<forall>c\<in>set s. toLowerByte c = c \<Longrightarrow> ToLower s = s"
  by (simp add: ToLower_def map_idI)

lemma ToLower_noSpace:
  "\<forall>c\<in>set s. \<not> asciiSpace c \<Longrightarrow> \<forall>c\<in>set (ToLower s). \<not> asciiSpace c"
  by (auto simp: ToLower_def toLowerByte_space)

lemma ToLower_noAt: "CHR ''@'' \<notin> set s \<Longrightarrow> CHR ''@'' \<notin> set (ToLower s)"
proof
  assume n: "CHR ''@'' \<notin> set s" and "CHR ''@'' \<in> set (ToLower s)"
  then obtain x where x: "x \<in> set s" and "toLowerByte x = CHR ''@''"
    by (auto simp: ToLower_def)
  then have "x = CHR ''@''" by (simp add: toLowerByte_at)
  with x n show False by simp
qed

lemma ToLower_around: "ToLower (l @ CHR ''@'' # d) = ToLower l @ ''@'' @ ToLower d"
proof -
  have "toLowerByte CHR ''@'' = CHR ''@''" by (simp add: toLowerByte_at)
  then show ?thesis by (simp add: ToLower_def)
qed

lemma ToLower_Nil_iff: "ToLower s = [] \<longleftrightarrow> s = []"
  by (simp add: ToLower_def)

lemma folded_subset:
  "set (takeWhile (\<lambda>c. c \<noteq> CHR ''+'') (filter (\<lambda>c. c \<noteq> CHR ''.'') l)) \<subseteq> set l"
  by (auto dest: set_takeWhileD)

lemma folded_fixed:
  "filter (\<lambda>c. c \<noteq> CHR ''.'') (takeWhile (\<lambda>c. c \<noteq> CHR ''+'') (filter (\<lambda>c. c \<noteq> CHR ''.'') l))
     = takeWhile (\<lambda>c. c \<noteq> CHR ''+'') (filter (\<lambda>c. c \<noteq> CHR ''.'') l)"
proof (rule filter_True)
  show "\<forall>x\<in>set (takeWhile (\<lambda>c. c \<noteq> CHR ''+'') (filter (\<lambda>c. c \<noteq> CHR ''.'') l)). x \<noteq> CHR ''.''"
    using set_takeWhileD by fastforce
qed

lemma gmail_plain:
  "CHR ''@'' \<notin> set ''gmail.com'' \<and> TrimSpace ''gmail.com'' = ''gmail.com'' \<and>
   ToLower ''gmail.com'' = ''gmail.com'' \<and> ToLower ''@gmail.com'' = ''@gmail.com'' \<and>
   (\<forall>c\<in>set ''@gmail.com''. \<not> asciiSpace c)"
  by code_simp

lemma normalizeEmail_shape:
  assumes "\<forall>c\<in>set a. \<not> asciiSpace c"
    and "a = l @ CHR ''@'' # d" "CHR ''@'' \<notin> set l" "CHR ''@'' \<notin> set d" "d \<noteq> []"
  shows "\<exists>l' d'. normalizeEmail a = l' @ ''@'' @ d' \<and> CHR ''@'' \<notin> set l' \<and>
           CHR ''@'' \<notin> set d' \<and> d' \<noteq> [] \<and> (\<forall>c\<in>set d'. \<not> asciiSpace c) \<and> ToLower d' = d'"
proof -
  let ?l = "ToLower l" and ?d = "ToLower d"
  have e: "ToLower (TrimSpace a) = ?l @ ''@'' @ ?d"
    using assms(1,2) by (simp add: TrimSpace_id ToLower_around)
  have nl: "CHR ''@'' \<notin> set ?l" using assms(3) by (rule ToLower_noAt)
  have nd: "CHR ''@'' \<notin> set ?d" using assms(4) by (rule ToLower_noAt)
  have d0: "?d \<noteq> []" using assms(5) by (simp add: ToLower_Nil_iff)
  have "\<forall>c\<in>set d. \<not> asciiSpace c" using assms(1,2) by simp
  then have ds: "\<forall>c\<in>set ?d. \<not> asciiSpace c" by (rule ToLower_noSpace)
  have n: "normalizeEmail a =
     (if ?d = ''gmail.com'' \<or> ?d = ''googlemail.com''
      then takeWhile (\<lambda>c. c \<noteq> CHR ''+'') (filter (\<lambda>c. c \<noteq> CHR ''.'') ?l) @ ''@gmail.com''
      else ?l @ ''@'' @ ?d)"
    using e nl nd by (rule normalizeEmail_two)
  show ?thesis
  proof (cases "?d = ''gmail.com'' \<or> ?d = ''googlemail.com''")
    case True
    let ?l2 = "takeWhile (\<lambda>c. c \<noteq> CHR ''+'') (filter (\<lambda>c. c \<noteq> CHR ''.'') ?l)"
    have "normalizeEmail a = ?l2 @ ''@'' @ ''gmail.com''" using n True by simp
    moreover have "CHR ''@'' \<notin> set ?l2" using nl folded_subset [of ?l] by blast
    moreover have "CHR ''@'' \<notin> set ''gmail.com'' \<and> ''gmail.com'' \<noteq> [] \<and>
        (\<forall>c\<in>set ''gmail.com''. \<not> asciiSpace c) \<and> ToLower ''gmail.com'' = ''gmail.com''"
      using gmail_plain by simp
    ultimately show ?thesis by blast
  next
    case False
    then have "normalizeEmail a = ?l @ ''@'' @ ?d" using n by simp
    moreover have "ToLower ?d = ?d" by (rule ToLower_idem)
    ultimately show ?thesis using nl nd d0 ds by blast
  qed
qed

lemma Domain_of_valid:
  "isValidEmailFormat email \<Longrightarrow>
     Domain (fst (ValidateEmail cfg nt email st)) = extractDomain (normalizeEmail email)"
  by (simp add: ValidateEmail_def zeroResult_def Let_def split_def)

lemma last_dropWhile: "dropWhile P xs \<noteq> [] \<Longrightarrow> last (dropWhile P xs) = last xs"
  by (induction xs) (auto split: if_splits)

lemma trimmed_TrimSpace: "trimmed (TrimSpace s)"
proof -
  let ?t = "dropWhile asciiSpace s"
  let ?u = "dropWhile asciiSpace (rev ?t)"
  show ?thesis
  proof (cases "?u = []")
    case True
    then show ?thesis by (simp add: trimmed_def TrimSpace_def)
  next
    case False
    have "?t = [] \<Longrightarrow> ?u = []"
    proof -
      assume a: "?t = []"
      show "?u = []" unfolding a by simp
    qed
    with False have t: "?t \<noteq> []" by blast
    have 1: "\<not> asciiSpace (hd ?u)" using False by (rule hd_dropWhile)
    have "last ?u = last (rev ?t)" using False by (rule last_dropWhile)
    also have "\<dots> = hd ?t" using t by (simp add: last_rev)
    finally have 2: "\<not> asciiSpace (last ?u)" using hd_dropWhile [OF t] by simp
    have "hd (rev ?u) = last ?u" "last (rev ?u) = hd ?u"
      using False by (simp_all add: hd_rev last_rev)
    with 1 2 show ?thesis by (simp add: trimmed_def TrimSpace_def)
  qed
qed

lemma TrimSpace_trimmed: "trimmed s \<Longrightarrow> TrimSpace s = s"
proof (cases "s = []")
  case True
  then show ?thesis by (simp add: TrimSpace_def)
next
  case False
  assume "trimmed s"
  with False have h: "\<not> asciiSpace (hd s)" and l: "\<not> asciiSpace (last s)"
    by (simp_all add: trimmed_def)
  from False h have 1: "dropWhile asciiSpace s = s" by (cases s) auto
  from False l have "\<not> asciiSpace (hd (rev s))" by (simp add: hd_rev)
  with False have 2: "dropWhile asciiSpace (rev s) = rev s" by (cases "rev s") auto
  show ?thesis by (simp add: TrimSpace_def 1 2)
qed

lemma trimmed_ToLower: "trimmed s \<Longrightarrow> trimmed (ToLower s)"
  by (auto simp: trimmed_def ToLower_def hd_map last_map toLowerByte_space)

lemma length_TrimSpace_less:
  assumes "s \<noteq> []" "asciiSpace (hd s)"
  shows "length (TrimSpace s) < length s"
proof -
  obtain c cs where s: "s = c # cs" using assms(1) by (cases s) auto
  with assms(2) have "dropWhile asciiSpace s = dropWhile asciiSpace cs" by simp
  then have "length (dropWhile asciiSpace s) \<le> length cs" by (simp add: length_dropWhile_le)
  moreover have "length (TrimSpace s) \<le> length (dropWhile asciiSpace s)"
    unfolding TrimSpace_def length_rev
    using length_dropWhile_le [of asciiSpace "rev (dropWhile asciiSpace s)"] by simp
  ultimately show ?thesis using s by simp
qed

lemma length_normalizeEmail: "length (normalizeEmail x) \<le> length (TrimSpace x)"
proof (cases "count_list (ToLower (TrimSpace x)) CHR ''@'' = 1")
  case False
  then show ?thesis by (simp add: normalizeEmail_not_two ToLower_def)
next
  case True
  then obtain l d where s: "ToLower (TrimSpace x) = l @ CHR ''@'' # d" and nl: "CHR ''@'' \<notin> set l"
    and nd: "CHR ''@'' \<notin> set d"
    using count_one_split [of "ToLower (TrimSpace x)" "CHR ''@''"] by blast
  then have s2: "ToLower (TrimSpace x) = l @ ''@'' @ d" by simp
  have len: "length (TrimSpace x) = length l + 1 + length d"
    using arg_cong [OF s, of length] by (simp add: ToLower_def)
  let ?l2 = "takeWhile (\<lambda>c. c \<noteq> CHR ''+'') (filter (\<lambda>c. c \<noteq> CHR ''.'') l)"
  have "length ?l2 \<le> length (filter (\<lambda>c. c \<noteq> CHR ''.'') l)" by (rule length_takeWhile_le)
  also have "\<dots> \<le> length l" by (rule length_filter_le)
  finally have l2: "length ?l2 \<le> length l" .
  show ?thesis
  proof (cases "d = ''gmail.com'' \<or> d = ''googlemail.com''")
    case True
    then have "normalizeEmail x = ?l2 @ ''@gmail.com''"
      using normalizeEmail_two [OF s2 nl nd] by simp
    moreover have "9 \<le> length d" using True by auto
    ultimately show ?thesis using l2 len by simp
  next
    case False
    then have "normalizeEmail x = l @ ''@'' @ d"
      using normalizeEmail_two [OF s2 nl nd] by simp
    then show ?thesis using len by simp
  qed
qed

lemma normalizeEmail_idem_iff:
  "normalizeEmail (normalizeEmail a) = normalizeEmail a \<longleftrightarrow>
     normalizeEmail a = [] \<or> \<not> asciiSpace (hd (normalizeEmail a))"
proof -
  let ?e = "ToLower (TrimSpace a)"
  have te: "trimmed ?e" using trimmed_TrimSpace by (rule trimmed_ToLower)
  then have ee: "ToLower (TrimSpace ?e) = ?e" by (simp add: TrimSpace_trimmed ToLower_idem)
  have hd_e: "?e = [] \<or> \<not> asciiSpace (hd ?e)" using te by (auto simp: trimmed_def)
  show ?thesis
  proof (cases "count_list ?e CHR ''@'' = 1")
    case False
    then have 1: "normalizeEmail a = ?e" by (rule normalizeEmail_not_two)
    have "normalizeEmail ?e = ?e"
      using normalizeEmail_not_two [of ?e] ee False by simp
    with 1 hd_e show ?thesis by simp
  next
    case True
    then obtain l d where s: "?e = l @ CHR ''@'' # d" and nl: "CHR ''@'' \<notin> set l"
      and nd: "CHR ''@'' \<notin> set d"
      using count_one_split [of ?e "CHR ''@''"] by blast
    have e2: "ToLower (TrimSpace a) = l @ ''@'' @ d" using s by simp
    have ee2: "ToLower (TrimSpace ?e) = l @ ''@'' @ d" using ee s by simp
    show ?thesis
    proof (cases "d = ''gmail.com'' \<or> d = ''googlemail.com''")
      case False
      have 1: "normalizeEmail a = ?e"
        using normalizeEmail_two [OF e2 nl nd] False s by simp
      have "normalizeEmail ?e = ?e"
        using normalizeEmail_two [OF ee2 nl nd] False s by simp
      with 1 hd_e show ?thesis by simp
    next
      case True
      let ?l2 = "takeWhile (\<lambda>c. c \<noteq> CHR ''+'') (filter (\<lambda>c. c \<noteq> CHR ''.'') l)"
      let ?n = "?l2 @ ''@'' @ ''gmail.com''"
      have n: "normalizeEmail a = ?n"
        using normalizeEmail_two [OF e2 nl nd] True by simp
      have n0: "?n \<noteq> []" by simp
      show ?thesis
      proof (cases "asciiSpace (hd ?n)")
        case True
        with n0 have "length (TrimSpace ?n) < length ?n" by (rule length_TrimSpace_less)
        with length_normalizeEmail [of ?n] have "length (normalizeEmail ?n) < length ?n"
          by simp
        then have "normalizeEmail ?n \<noteq> ?n" by auto
        with True n0 show ?thesis unfolding n by simp
      next
        case False
        have lastn: "last ?n = CHR ''m''" by simp
        have "\<not> asciiSpace CHR ''m''" by (simp add: asciiSpace_def)
        with False lastn have "trimmed ?n" unfolding trimmed_def by presburger
        then have tn: "TrimSpace ?n = ?n" by (rule TrimSpace_trimmed)
        have sub: "set ?l2 \<subseteq> set ?e" using folded_subset [of l] s by auto
        have "\<forall>c\<in>set ?l2. toLowerByte c = c" using sub ToLower_fixed by blast
        then have "ToLower ?l2 = ?l2" by (rule ToLower_fix_all)
        then have "ToLower ?n = ?n"
          using gmail_plain by (simp add: ToLower_def)
        then have t: "ToLower (TrimSpace ?n) = ?l2 @ ''@'' @ ''gmail.com''"
          using tn by simp
        have nl2: "CHR ''@'' \<notin> set ?l2" using folded_subset [of l] nl by blast
        have ng: "CHR ''@'' \<notin> set ''gmail.com''" using gmail_plain by simp
        have "normalizeEmail ?n =
            takeWhile (\<lambda>c. c \<noteq> CHR ''+'') (filter (\<lambda>c. c \<noteq> CHR ''.'') ?l2) @ ''@gmail.com''"
          using normalizeEmail_two [OF t nl2 ng] by simp
        also have "\<dots> = ?l2 @ ''@gmail.com''"
          by (simp only: folded_fixed takeWhile_idem)
        finally have "normalizeEmail ?n = ?n" by simp
        with False show ?thesis unfolding n by simp
      qed
    qed
  qed
qed

lemma normalizeEmail_idem_noSpace:
  assumes w: "\<forall>c\<in>set a. \<not> asciiSpace c"
  shows "normalizeEmail (normalizeEmail a) = normalizeEmail a"
proof -
  let ?e = "ToLower a"
  have e: "ToLower (TrimSpace a) = ?e" using w by (simp add: TrimSpace_id)
  have we: "\<forall>c\<in>set ?e. \<not> asciiSpace c" using w by (rule ToLower_noSpace)
  have ee: "ToLower (TrimSpace ?e) = ?e" using we by (simp add: TrimSpace_id ToLower_idem)
  show ?thesis
  proof (cases "count_list ?e CHR ''@'' = 1")
    case False
    then have "normalizeEmail a = ?e"
      using normalizeEmail_not_two [of a] e by simp
    moreover have "normalizeEmail ?e = ?e"
      using normalizeEmail_not_two [of ?e] ee False by simp
    ultimately show ?thesis by simp
  next
    case True
    then obtain l d where s: "?e = l @ CHR ''@'' # d" and nl: "CHR ''@'' \<notin> set l"
      and nd: "CHR ''@'' \<notin> set d"
      using count_one_split [of ?e "CHR ''@''"] by blast
    have e2: "ToLower (TrimSpace a) = l @ ''@'' @ d" using e s by simp
    have ee2: "ToLower (TrimSpace ?e) = l @ ''@'' @ d" using ee s by simp
    show ?thesis
    proof (cases "d = ''gmail.com'' \<or> d = ''googlemail.com''")
      case False
      have "normalizeEmail a = l @ ''@'' @ d"
        using normalizeEmail_two [OF e2 nl nd] False by simp
      moreover have "normalizeEmail ?e = l @ ''@'' @ d"
        using normalizeEmail_two [OF ee2 nl nd] False by simp
      ultimately show ?thesis using s by simp
    next
      case True
      let ?l2 = "takeWhile (\<lambda>c. c \<noteq> CHR ''+'') (filter (\<lambda>c. c \<noteq> CHR ''.'') l)"
      let ?n = "?l2 @ ''@'' @ ''gmail.com''"
      have n: "normalizeEmail a = ?n"
        using normalizeEmail_two [OF e2 nl nd] True by simp
      have sub: "set ?l2 \<subseteq> set ?e" using folded_subset [of l] s by auto
      have "\<forall>c\<in>set ?l2. \<not> asciiSpace c" using sub we by blast
      then have wn: "\<forall>c\<in>set ?n. \<not> asciiSpace c" using gmail_plain by auto
      have "\<forall>c\<in>set ?l2. toLowerByte c = c" using sub ToLower_fixed by blast
      then have "ToLower ?l2 = ?l2" by (rule ToLower_fix_all)
      then have "ToLower ?n = ?n"
        using gmail_plain by (simp add: ToLower_def)
      then have t: "ToLower (TrimSpace ?n) = ?l2 @ ''@'' @ ''gmail.com''"
        using wn by (simp add: TrimSpace_id)
      have nl2: "CHR ''@'' \<notin> set ?l2" using folded_subset [of l] nl by blast
      have ng: "CHR ''@'' \<notin> set ''gmail.com''" using gmail_plain by simp
      have "normalizeEmail ?n =
          takeWhile (\<lambda>c. c \<noteq> CHR ''+'') (filter (\<lambda>c. c \<noteq> CHR ''.'') ?l2) @ ''@gmail.com''"
        using normalizeEmail_two [OF t nl2 ng] by simp
      also have "\<dots> = ?l2 @ ''@gmail.com''"
        by (simp only: folded_fixed takeWhile_idem)
      finally show ?thesis unfolding n by simp
    qed
  qed
qed

text \<open>
  Claim C9. For every address the format validator accepts, the domain extracted from
  the normalised address is not empty, and so neither is the \<open>Domain\<close> field of the
  result of \<open>ValidateEmail\<close>.
\<close>

theorem valid_format_domain_nonempty:
  "isValidEmailFormat email \<Longrightarrow>
     extractDomain (normalizeEmail email) \<noteq> [] \<and>
     Domain (fst (ValidateEmail cfg nt email st)) \<noteq> []"
proof -
  assume v: "isValidEmailFormat email"
  from valid_shape [OF v] obtain l d where
    s: "email = l @ CHR ''@'' # d" and n: "CHR ''@'' \<notin> set l" "CHR ''@'' \<notin> set d"
    and d: "d \<noteq> []" and w: "\<forall>c\<in>set email. \<not> asciiSpace c"
    by blast
  from normalizeEmail_shape [OF w s n d] obtain l' d' where
    ne: "normalizeEmail email = l' @ ''@'' @ d'" and n': "CHR ''@'' \<notin> set l'" "CHR ''@'' \<notin> set d'"
    and d': "d' \<noteq> []" and w': "\<forall>c\<in>set d'. \<not> asciiSpace c" and f: "ToLower d' = d'"
    by blast
  have "extractDomain (normalizeEmail email) = ToLower (TrimSpace d')"
    unfolding ne using n' by (rule extractDomain_two)
  also have "\<dots> = d'" using w' f by (simp add: TrimSpace_id)
  finally have "extractDomain (normalizeEmail email) \<noteq> []" using d' by simp
  then show ?thesis using v by (simp add: Domain_of_valid)
qed

theorem valid_format_domain_nonempty_witness:
  "isValidEmailFormat ''User.Name+x@GoogleMail.com'' \<and>
   extractDomain (normalizeEmail ''User.Name+x@GoogleMail.com'') \<noteq> [] \<and>
   Domain (fst (ValidateEmail DefaultConfig (stubNet ([], None) ([], None) True)
      ''User.Name+x@GoogleMail.com'' (initial 0))) \<noteq> []"
proof -
  have v: "isValidEmailFormat ''User.Name+x@GoogleMail.com''" by code_simp
  from v valid_format_domain_nonempty [OF v, of DefaultConfig
      "stubNet ([], None) ([], None) True" "initial 0"]
  show ?thesis by simp
qed

text \<open>
  Claim C3 as stated fails: the address \<open>. a@gmail.com\<close> normalises to
  \<open> a@gmail.com\<close>, whose leading space the second normalisation trims.
\<close>

theorem normalizeEmail_not_idempotent:
  "normalizeEmail (normalizeEmail ''. a@gmail.com'') \<noteq> normalizeEmail ''. a@gmail.com''"
  by code_simp

text \<open>
  Claim C3, amended. On an address of ASCII bytes, normalising twice gives the same as
  normalising once exactly when the normalised address is empty or does not start with
  a white-space byte. In particular normalisation is idempotent on every address the
  format validator accepts, the only addresses the pipeline normalises. (ASCII, because
  the library functions are modelled on ASCII bytes.)
\<close>

theorem normalizeEmail_idempotent_amended:
  "((\<forall>c\<in>set a. isASCII c) \<longrightarrow>
      (normalizeEmail (normalizeEmail a) = normalizeEmail a \<longleftrightarrow>
         normalizeEmail a = [] \<or> \<not> asciiSpace (hd (normalizeEmail a)))) \<and>
   (isValidEmailFormat a \<longrightarrow> normalizeEmail (normalizeEmail a) = normalizeEmail a)"
proof (intro conjI impI)
  show "normalizeEmail (normalizeEmail a) = normalizeEmail a \<longleftrightarrow>
         normalizeEmail a = [] \<or> \<not> asciiSpace (hd (normalizeEmail a))"
    by (rule normalizeEmail_idem_iff)
next
  assume "isValidEmailFormat a"
  then have "\<forall>c\<in>set a. \<not> asciiSpace c"
    using valid_shape [of a] by blast
  then show "normalizeEmail (normalizeEmail a) = normalizeEmail a"
    by (rule normalizeEmail_idem_noSpace)
qed

theorem normalizeEmail_idempotent_amended_witness:
  "isValidEmailFormat ''Te.St+tag@GoogleMail.com'' \<and>
   normalizeEmail (normalizeEmail ''Te.St+tag@GoogleMail.com'') =
     normalizeEmail ''Te.St+tag@GoogleMail.com'' \<and>
   list_all isASCII '' .a+b@@Gmail.com'' \<and>
   normalizeEmail (normalizeEmail '' .a+b@@Gmail.com'') = normalizeEmail '' .a+b@@Gmail.com''"
proof -
  have v: "isValidEmailFormat ''Te.St+tag@GoogleMail.com''" by code_simp
  have w: "\<forall>c\<in>set '' .a+b@@Gmail.com''. isASCII c" by code_simp
  have h: "\<not> asciiSpace (hd (normalizeEmail '' .a+b@@Gmail.com''))" by code_simp
  from v w h normalizeEmail_idempotent_amended [of "''Te.St+tag@GoogleMail.com''"]
    normalizeEmail_idempotent_amended [of "'' .a+b@@Gmail.com''"]
  show ?thesis unfolding list_all_iff by blast
qed


end
